theory Spec2Isabelle
  imports Main "HOL-Library.Sublist" "HOL-Library.Word"
begin

unbundle bit_operations_syntax

section \<open>The Huffman coder (huffman.cpp)\<close>

text \<open>
  The C++ program \<^verbatim>\<open>huffman.cpp\<close> has two modes, \<^verbatim>\<open>encode\<close> and \<^verbatim>\<open>decode\<close>.
  A \<^verbatim>\<open>char\<close> is a byte, a \<^verbatim>\<open>std::string\<close> a list of bytes; bit strings are
  strings of the characters \<^verbatim>\<open>0\<close> and \<^verbatim>\<open>1\<close>.  The frequency field is a C++
  \<^verbatim>\<open>int\<close>; every frequency is at most the length of the command-line argument,
  which is far below \<open>2^31\<close>, so it is modelled by \<^typ>\<open>int\<close>.
\<close>

subsection \<open>Nodes, comparator, code assignment\<close>

text \<open>\<^verbatim>\<open>struct Node { char ch; int freq; Node *left, *right; }\<close>: a null pointer is \<open>None\<close>.\<close>

datatype node = Node (ch: char) (freq: int) (left: "node option") (right: "node option")

text \<open>\<^verbatim>\<open>struct cmp\<close>: \<^verbatim>\<open>a->freq > b->freq\<close>.\<close>

definition cmp :: "node \<Rightarrow> node \<Rightarrow> bool" where
  "cmp a b \<longleftrightarrow> freq a > freq b"

text \<open>
  \<^verbatim>\<open>buildCode(root, str, codes)\<close>: returns on a null pointer; at a node without
  children stores \<^verbatim>\<open>str.empty() ? "0" : str\<close> under the node's character;
  otherwise descends left with \<^verbatim>\<open>str + "0"\<close>, then right with \<^verbatim>\<open>str + "1"\<close>.
  The table \<^verbatim>\<open>codes\<close> is passed by reference; here it is passed and returned.
\<close>

fun buildCode :: "node option \<Rightarrow> string \<Rightarrow> (char \<rightharpoonup> string) \<Rightarrow> (char \<rightharpoonup> string)" where
  "buildCode None str codes = codes"
| "buildCode (Some (Node c f None None)) str codes =
     codes(c \<mapsto> (if str = [] then ''0'' else str))"
| "buildCode (Some (Node c f l r)) str codes =
     buildCode r (str @ ''1'') (buildCode l (str @ ''0'') codes)"

subsection \<open>The priority queue and the unordered maps of the standard library\<close>

text \<open>
  \<^verbatim>\<open>std::priority_queue<Node*, vector<Node*>, cmp>\<close>: the content is a bag of nodes,
  kept here as a list.  \<^verbatim>\<open>top()\<close> followed by \<^verbatim>\<open>pop()\<close> removes an element
  \<open>n\<close> such that \<open>cmp n x\<close> holds for no element \<open>x\<close>, that is, one of least
  frequency.  Which one of several such elements is removed depends on the
  library's heap algorithm; the relation \<open>pq_pop\<close> admits each of them.
\<close>

type_synonym pq = "node list"

definition pq_push :: "node \<Rightarrow> pq \<Rightarrow> pq" where
  "pq_push n q = q @ [n]"

inductive pq_pop :: "pq \<Rightarrow> node \<Rightarrow> pq \<Rightarrow> bool" where
  pq_popI: "q = xs @ n # ys \<Longrightarrow> \<forall>x \<in> set q. \<not> cmp n x \<Longrightarrow> pq_pop q n (xs @ ys)"

text \<open>
  Iterating over a \<^verbatim>\<open>std::unordered_map\<close> visits every entry once, in an order
  the library chooses: \<open>iteration_of m kvs\<close> holds for each such enumeration.
\<close>

definition iteration_of :: "('k \<rightharpoonup> 'v) \<Rightarrow> ('k \<times> 'v) list \<Rightarrow> bool" where
  "iteration_of m kvs \<longleftrightarrow> distinct (map fst kvs) \<and> map_of kvs = m"

subsection \<open>Mode encode\<close>

datatype error = EmptyText | EmptyBits | NoCodeMap

text \<open>\<^verbatim>\<open>for (char c : text) freq[c]++;\<close> where \<^verbatim>\<open>freq[c]\<close> starts at 0 for a new key.\<close>

definition count_freq :: "string \<Rightarrow> (char \<rightharpoonup> int)" where
  "count_freq text =
     fold (\<lambda>c m. m(c \<mapsto> (case m c of None \<Rightarrow> 0 | Some k \<Rightarrow> k) + 1)) text Map.empty"

text \<open>\<^verbatim>\<open>for (auto& [c, f] : freq) pq.push(new Node(c, f));\<close>\<close>

definition fill_pq :: "(char \<times> int) list \<Rightarrow> pq" where
  "fill_pq fs = fold (\<lambda>(c, f) q. pq_push (Node c f None None) q) fs []"

text \<open>
  The single character case: when the queue holds one node, it is replaced
  by a new root whose left child is that node and whose right child is null.
\<close>

inductive single_case :: "pq \<Rightarrow> pq \<Rightarrow> bool" where
  single: "length q = 1 \<Longrightarrow> pq_pop q single q' \<Longrightarrow>
     single_case q (pq_push (Node (CHR 0x00) (freq single) (Some single) None) q')"
| several: "length q \<noteq> 1 \<Longrightarrow> single_case q q"

text \<open>
  \<^verbatim>\<open>while (pq.size() > 1)\<close>: remove two nodes, push a node with the sum of their
  frequencies, the first removed as left child and the second as right child.
\<close>

inductive merge_loop :: "pq \<Rightarrow> pq \<Rightarrow> bool" where
  merge_exit: "\<not> length q > 1 \<Longrightarrow> merge_loop q q"
| merge_iter: "length q > 1 \<Longrightarrow> pq_pop q l q1 \<Longrightarrow> pq_pop q1 r q2 \<Longrightarrow>
     merge_loop (pq_push (Node (CHR 0x00) (freq l + freq r) (Some l) (Some r)) q2) q' \<Longrightarrow>
     merge_loop q q'"

text \<open>
  Building the tree from the entries of the frequency map in their iteration
  order, up to \<^verbatim>\<open>Node* root = pq.top(); pq.pop();\<close>, and the code table
  \<^verbatim>\<open>buildCode(root, "", codes)\<close> from an empty table.
\<close>

inductive build_tree :: "(char \<times> int) list \<Rightarrow> node \<Rightarrow> bool" where
  build_treeI: "single_case (fill_pq fs) q1 \<Longrightarrow> merge_loop q1 q2 \<Longrightarrow> pq_pop q2 root rest \<Longrightarrow>
     build_tree fs root"

inductive build_codes :: "(char \<times> int) list \<Rightarrow> (char \<rightharpoonup> string) \<Rightarrow> bool" where
  build_codesI: "build_tree fs root \<Longrightarrow> build_codes fs (buildCode (Some root) [] Map.empty)"

text \<open>
  \<^verbatim>\<open>for (char c : text) encoded += codes[c];\<close>  The operator \<^verbatim>\<open>codes[c]\<close> of an
  unordered map does not fail on a missing key: it inserts the key with the
  empty string and yields that empty string.
\<close>

fun encode_text :: "string \<Rightarrow> (char \<rightharpoonup> string) \<Rightarrow> string \<Rightarrow> string \<times> (char \<rightharpoonup> string)" where
  "encode_text [] codes encoded = (encoded, codes)"
| "encode_text (c # cs) codes encoded =
     (case codes c of
        None \<Rightarrow> encode_text cs (codes(c \<mapsto> [])) (encoded @ [])
      | Some s \<Rightarrow> encode_text cs codes (encoded @ s))"

text \<open>
  \<^verbatim>\<open>(int)c\<close> for the signed \<^verbatim>\<open>char\<close> of the usual compilers, and \<^verbatim>\<open>(char)charCode\<close>,
  which keeps the low eight bits.
\<close>

definition int_of_char :: "char \<Rightarrow> int" where
  "int_of_char c = (if (of_char c :: int) \<ge> 128 then of_char c - 256 else of_char c)"

definition char_of_int :: "int \<Rightarrow> char" where
  "char_of_int i = char_of i"

text \<open>
  The encode mode after the argument count checks.  The result is either the
  error printed (exit status 1), or the two parts of the output: the line
  of encoded bits and the lines \<^verbatim>\<open>(int)c code\<close> of the code map in its
  iteration order.
\<close>

inductive main_encode :: "string \<Rightarrow> error + string \<times> (int \<times> string) list \<Rightarrow> bool" where
  encode_empty: "text = [] \<Longrightarrow> main_encode text (Inl EmptyText)"
| encode_run: "text \<noteq> [] \<Longrightarrow> iteration_of (count_freq text) fs \<Longrightarrow> build_codes fs codes \<Longrightarrow>
     encode_text text codes [] = (encoded, codes') \<Longrightarrow> iteration_of codes' cs \<Longrightarrow>
     main_encode text (Inr (encoded, map (\<lambda>(c, code). (int_of_char c, code)) cs))"

subsection \<open>Mode decode\<close>

text \<open>
  \<^verbatim>\<open>while (cin >> charCode >> code) revCodes[code] = (char)charCode;\<close>  The input
  is given as the list of the pairs read.
\<close>

definition read_codes :: "(int \<times> string) list \<Rightarrow> (string \<rightharpoonup> char)" where
  "read_codes pairs =
     fold (\<lambda>(charCode, code) revCodes. revCodes(code \<mapsto> char_of_int charCode)) pairs Map.empty"

text \<open>The decoding loop; the state is \<^verbatim>\<open>(decoded, current)\<close>.\<close>

fun decode_loop :: "(string \<rightharpoonup> char) \<Rightarrow> string \<Rightarrow> string \<times> string \<Rightarrow> string \<times> string" where
  "decode_loop revCodes [] (decoded, current) = (decoded, current)"
| "decode_loop revCodes (b # bits) (decoded, current) =
     (case revCodes (current @ [b]) of
        Some c \<Rightarrow> decode_loop revCodes bits (decoded @ [c], [])
      | None \<Rightarrow> decode_loop revCodes bits (decoded, current @ [b]))"

text \<open>
  The loop, the warning and the output: the text written to the standard
  output, and whether \<^verbatim>\<open>Warning: Incomplete code at end\<close> was written to the
  standard error.
\<close>

definition decode_bits :: "(string \<rightharpoonup> char) \<Rightarrow> string \<Rightarrow> string \<times> bool" where
  "decode_bits revCodes bits =
     (case decode_loop revCodes bits ([], []) of (decoded, current) \<Rightarrow> (decoded, current \<noteq> []))"

text \<open>The decode mode after the argument count checks.\<close>

definition main_decode :: "string \<Rightarrow> (int \<times> string) list \<Rightarrow> error + string \<times> bool" where
  "main_decode bits pairs =
     (if bits = [] then Inl EmptyBits
      else let revCodes = read_codes pairs in
        if revCodes = Map.empty then Inl NoCodeMap
        else Inr (decode_bits revCodes bits))"


subsection \<open>An executable resolution of the library's choices\<close>

text \<open>
  The relations above leave open which of several least elements the queue
  yields and in which order a map is iterated.  The functions of this
  subsection fix one admissible choice each (the first least element of the
  list; the keys in the order of \<open>remdups\<close>), so that the program can be run
  on concrete arguments.  They are shown below to be instances of the
  relations; the properties are proved for every outcome of the relations.
\<close>

fun pq_pop_first :: "pq \<Rightarrow> (node \<times> pq) option" where
  "pq_pop_first [] = None"
| "pq_pop_first (x # xs) =
     (case pq_pop_first xs of
        None \<Rightarrow> Some (x, [])
      | Some (m, rest) \<Rightarrow> if cmp x m then Some (m, x # rest) else Some (x, xs))"

definition single_first :: "pq \<Rightarrow> pq" where
  "single_first q =
     (if length q = 1 then
        (case pq_pop_first q of
           None \<Rightarrow> q
         | Some (single, q') \<Rightarrow> pq_push (Node (CHR 0x00) (freq single) (Some single) None) q')
      else q)"

function merge_first :: "pq \<Rightarrow> pq" where
  "merge_first q =
     (if length q > 1 then
        (case pq_pop_first q of
           None \<Rightarrow> q
         | Some (l, q1) \<Rightarrow>
             (case pq_pop_first q1 of
                None \<Rightarrow> q
              | Some (r, q2) \<Rightarrow>
                  merge_first (pq_push (Node (CHR 0x00) (freq l + freq r) (Some l) (Some r)) q2)))
      else q)"
  by pat_completeness auto
termination
proof (relation "measure length")
  show "wf (measure length)" by simp
next
  have none: "q = []" if "pq_pop_first q = None" for q
    using that by (cases q) (auto split: option.splits if_splits)
  have shorter: "length q = Suc (length q')" if "pq_pop_first q = Some (n, q')" for q n q'
    using that by (induction q arbitrary: n q') (auto split: option.splits if_splits dest: none)
  fix q :: pq and x2 x y x2a xa ya
  assume "pq_pop_first q = Some x2" "(x, y) = x2" "pq_pop_first y = Some x2a" "(xa, ya) = x2a"
  then have "length q = Suc (length y)" "length y = Suc (length ya)"
    using shorter by metis+
  then show "(pq_push (Node (CHR 0x00) (freq x + freq xa) (Some x) (Some xa)) ya, q) \<in> measure length"
    by (simp add: pq_push_def)
qed

declare merge_first.simps [simp del]

definition entries_in :: "'k list \<Rightarrow> ('k \<rightharpoonup> 'v) \<Rightarrow> ('k \<times> 'v) list" where
  "entries_in ks m =
     concat (map (\<lambda>k. case m k of None \<Rightarrow> [] | Some v \<Rightarrow> [(k, v)]) (remdups ks))"

definition build_tree_first :: "(char \<times> int) list \<Rightarrow> node option" where
  "build_tree_first fs =
     map_option fst (pq_pop_first (merge_first (single_first (fill_pq fs))))"

text \<open>
  The branch \<open>None\<close> below is not reached: the queue of a non-empty text is not
  empty (lemma \<open>build_tree_first_sound\<close>).
\<close>

definition main_encode_first :: "string \<Rightarrow> error + string \<times> (int \<times> string) list" where
  "main_encode_first text =
     (if text = [] then Inl EmptyText
      else case build_tree_first (entries_in text (count_freq text)) of
        None \<Rightarrow> Inl EmptyText
      | Some root \<Rightarrow>
          (case encode_text text (buildCode (Some root) [] Map.empty) [] of
             (encoded, codes') \<Rightarrow>
               Inr (encoded, map (\<lambda>(c, code). (int_of_char c, code)) (entries_in text codes'))))"

section \<open>The bit channel\<close>

text \<open>
  The program that writes the encoded bits into an image and reads them back
  (the Python script and the web backend named in the README) is not among
  the sources.  The definitions of this section follow the specification's
  description of that component, sentence by sentence.
\<close>

text \<open>Modelled from the spec: a pixel of the missing pixel buffer, with three 8-bit
  channels (R, G, B); the buffer is the list of its pixels in scan order.\<close>

type_synonym pixel = "8 word \<times> 8 word \<times> 8 word"

text \<open>Modelled from the spec: the two failures of the missing bit channel.\<close>

datatype channel_error = CapacityError | CorruptHeaderError

text \<open>Modelled from the spec: the missing embedding overwrites the least-significant
  bit of a channel, leaving the other 7 bits of that channel untouched.\<close>

definition set_lsb :: "8 word \<Rightarrow> bool \<Rightarrow> 8 word" where
  "set_lsb w v = (w AND 0xFE) OR (if v then 1 else 0)"

text \<open>Modelled from the spec: the least-significant bit that the missing extraction reads.\<close>

definition get_lsb :: "8 word \<Rightarrow> bool" where
  "get_lsb w \<longleftrightarrow> w AND 1 = 1"

text \<open>Modelled from the spec: in the missing embedding, bit \<open>i\<close> overwrites the
  least-significant bit of channel \<open>i mod 3\<close> of pixel \<open>i div 3\<close>.  It is only
  applied to slots inside the buffer.\<close>

definition write_slot :: "pixel list \<Rightarrow> nat \<Rightarrow> bool \<Rightarrow> pixel list" where
  "write_slot buf i v =
     (case buf ! (i div 3) of (r, g, b) \<Rightarrow>
        buf[i div 3 :=
          (if i mod 3 = 0 then (set_lsb r v, g, b)
           else if i mod 3 = 1 then (r, set_lsb g v, b)
           else (r, g, set_lsb b v))])"

text \<open>Modelled from the spec: the bit-slot \<open>i\<close> that the missing extraction reads,
  channel \<open>i mod 3\<close> of pixel \<open>i div 3\<close>.  It is only applied to slots inside the buffer.\<close>

definition read_slot :: "pixel list \<Rightarrow> nat \<Rightarrow> bool" where
  "read_slot buf i =
     (case buf ! (i div 3) of (r, g, b) \<Rightarrow>
        get_lsb (if i mod 3 = 0 then r else if i mod 3 = 1 then g else b))"

text \<open>Modelled from the spec: the missing header writer, a \<open>k\<close>-bit big-endian
  integer (most significant bit first).  The specification does not say what is
  written for a number that needs more than \<open>k\<close> bits; the field keeps the low
  \<open>k\<close> bits.\<close>

fun to_bits :: "nat \<Rightarrow> nat \<Rightarrow> bool list" where
  "to_bits 0 n = []"
| "to_bits (Suc k) n = to_bits k (n div 2) @ [odd n]"

text \<open>Modelled from the spec: the missing header reader, the number that a big-endian
  bit sequence encodes.\<close>

definition from_bits :: "bool list \<Rightarrow> nat" where
  "from_bits bs = foldl (\<lambda>acc b. 2 * acc + (if b then 1 else 0)) 0 bs"

text \<open>Modelled from the spec: the writing loop of the missing embedding, one bit per
  slot from slot \<open>i\<close> on.\<close>

fun write_from :: "nat \<Rightarrow> bool list \<Rightarrow> pixel list \<Rightarrow> pixel list" where
  "write_from i [] buf = buf"
| "write_from i (v # vs) buf = write_from (Suc i) vs (write_slot buf i v)"

text \<open>Modelled from the spec: the missing operation \<^verbatim>\<open>embed(pixelBuffer, bitstring)\<close>.
  It computes total bits = 24 + len(bitstring), fails with \<open>CapacityError\<close> if
  total bits exceeds 3 times the pixel count, and otherwise writes the 24-bit
  header, then the payload.  The buffer is mutated in place; the result is the
  buffer after the call and the error, if any.\<close>

definition embed :: "pixel list \<Rightarrow> bool list \<Rightarrow> pixel list \<times> channel_error option" where
  "embed buf bits =
     (if 24 + length bits > 3 * length buf then (buf, Some CapacityError)
      else (write_from 0 (to_bits 24 (length bits) @ bits) buf, None))"

text \<open>Modelled from the spec: the missing operation \<^verbatim>\<open>extract(pixelBuffer)\<close>.  It
  reads the first 24 bit-slots to recover the payload length, fails with
  \<open>CorruptHeaderError\<close> if the declared length exceeds the remaining bit-slots,
  and otherwise returns exactly that many subsequent bit-slots.  A buffer
  with fewer than 24 bit-slots holds no header; the specification is silent
  on it, and it is reported as a corrupt header as well.\<close>

definition extract_bits :: "pixel list \<Rightarrow> channel_error + bool list" where
  "extract_bits buf =
     (if 3 * length buf < 24 then Inl CorruptHeaderError
      else let n = from_bits (map (read_slot buf) [0..<24]) in
        if n > 3 * length buf - 24 then Inl CorruptHeaderError
        else Inr (map (read_slot buf) [24..<24 + n]))"

section \<open>Notions used in the proofs\<close>

text \<open>The characters at the leaves of a tree, from left to right.\<close>

fun leafs :: "node \<Rightarrow> char list" where
  "leafs (Node c f None None) = [c]"
| "leafs (Node c f (Some l) None) = leafs l"
| "leafs (Node c f None (Some r)) = leafs r"
| "leafs (Node c f (Some l) (Some r)) = leafs l @ leafs r"

text \<open>Every node has no child or two children.\<close>

fun full :: "node \<Rightarrow> bool" where
  "full (Node c f None None) = True"
| "full (Node c f (Some l) (Some r)) = (full l \<and> full r)"
| "full (Node c f (Some l) None) = False"
| "full (Node c f None (Some r)) = False"

text \<open>The assignments that \<open>buildCode\<close> makes below a node, in their order.\<close>

fun code_list :: "node \<Rightarrow> string \<Rightarrow> (char \<times> string) list" where
  "code_list (Node c f None None) str = [(c, if str = [] then ''0'' else str)]"
| "code_list (Node c f (Some l) None) str = code_list l (str @ ''0'')"
| "code_list (Node c f None (Some r)) str = code_list r (str @ ''1'')"
| "code_list (Node c f (Some l) (Some r)) str =
     code_list l (str @ ''0'') @ code_list r (str @ ''1'')"

definition store :: "(char \<times> string) list \<Rightarrow> (char \<rightharpoonup> string) \<Rightarrow> (char \<rightharpoonup> string)" where
  "store kvs m = fold (\<lambda>(c, s) m. m(c \<mapsto> s)) kvs m"

definition prefix_free :: "(char \<times> string) list \<Rightarrow> bool" where
  "prefix_free kvs \<longleftrightarrow> (\<forall>x \<in> set kvs. \<forall>y \<in> set kvs. prefix (snd x) (snd y) \<longrightarrow> x = y)"

text \<open>The invariant of the queue: full trees over disjoint sets of characters.\<close>

definition forest_ok :: "char set \<Rightarrow> pq \<Rightarrow> bool" where
  "forest_ok A q \<longleftrightarrow>
     (\<forall>t \<in> set q. full t) \<and> distinct (concat (map leafs q)) \<and> set (concat (map leafs q)) = A"

definition good_table :: "char set \<Rightarrow> (char \<times> string) list \<Rightarrow> bool" where
  "good_table A kvs \<longleftrightarrow>
     distinct (map fst kvs) \<and> fst ` set kvs = A \<and> prefix_free kvs \<and> (\<forall>x \<in> set kvs. snd x \<noteq> [])"

text \<open>What \<^verbatim>\<open>codes[c]\<close> yields: the code, or the empty string for a missing key.\<close>

definition code_or_empty :: "(char \<rightharpoonup> string) \<Rightarrow> char \<Rightarrow> string" where
  "code_or_empty codes c = (case codes c of None \<Rightarrow> [] | Some s \<Rightarrow> s)"

section \<open>Lemmas about the Huffman coder\<close>

lemma buildCode_code_list: "buildCode (Some t) str codes = store (code_list t str) codes"
  by (induction t str arbitrary: codes rule: code_list.induct) (simp_all add: store_def)

lemma fst_code_list: "map fst (code_list t str) = leafs t"
  by (induction t str rule: code_list.induct) simp_all

lemma code_list_prefix: "str \<noteq> [] \<Longrightarrow> (c, p) \<in> set (code_list t str) \<Longrightarrow> prefix str p"
proof (induction t str rule: code_list.induct)
  case (1 c f str) then show ?case by simp
next
  case (2 c f l str) then show ?case by (auto dest: append_prefixD)
next
  case (3 c f r str) then show ?case by (auto dest: append_prefixD)
next
  case (4 c f l r str) then show ?case by (auto dest: append_prefixD)
qed

lemma code_list_nonempty: "(c, p) \<in> set (code_list t str) \<Longrightarrow> p \<noteq> []"
proof (induction t str rule: code_list.induct)
  case (1 c f str) then show ?case by (auto split: if_splits)
qed auto

lemma zero_one_clash: "prefix (str @ ''0'') p \<Longrightarrow> prefix (str @ ''1'') q \<Longrightarrow> \<not> prefix p q \<and> \<not> prefix q p"
  by (auto simp: prefix_def append_eq_append_conv2 Cons_eq_append_conv)

lemma code_list_under: "(c, p) \<in> set (code_list t (str @ [b])) \<Longrightarrow> prefix (str @ [b]) p"
  by (rule code_list_prefix) simp_all

lemma code_list_prefix_free: "full t \<Longrightarrow> prefix_free (code_list t str)"
proof (induction t str rule: code_list.induct)
  case (1 c f str) then show ?case by (simp add: prefix_free_def)
next
  case (4 c f l r str)
  let ?L = "code_list l (str @ ''0'')" and ?R = "code_list r (str @ ''1'')"
  from 4 have pl: "prefix_free ?L" and pr: "prefix_free ?R" by simp_all
  have cross: "\<not> prefix (snd x) (snd y) \<and> \<not> prefix (snd y) (snd x)"
    if "x \<in> set ?L" "y \<in> set ?R" for x y
  proof -
    from that have "prefix (str @ ''0'') (snd x)" "prefix (str @ ''1'') (snd y)"
      using code_list_under[of "fst x" "snd x" l str] code_list_under[of "fst y" "snd y" r str] by simp_all
    then show ?thesis by (rule zero_one_clash)
  qed
  show ?case unfolding prefix_free_def
  proof (intro ballI impI)
    fix x y assume x: "x \<in> set (code_list (Node c f (Some l) (Some r)) str)"
      and y: "y \<in> set (code_list (Node c f (Some l) (Some r)) str)" and p: "prefix (snd x) (snd y)"
    from x y consider "x \<in> set ?L" "y \<in> set ?L" | "x \<in> set ?R" "y \<in> set ?R"
      | "x \<in> set ?L" "y \<in> set ?R" | "y \<in> set ?L" "x \<in> set ?R" by auto
    then show "x = y"
    proof cases
      case 1 with pl p show ?thesis unfolding prefix_free_def by blast
    next
      case 2 with pr p show ?thesis unfolding prefix_free_def by blast
    next
      case 3 with cross p show ?thesis by blast
    next
      case 4 with cross p show ?thesis by blast
    qed
  qed
qed simp_all

lemma fill_pq_map: "fill_pq fs = map (\<lambda>(c, f). Node c f None None) fs"
proof -
  have "fold (\<lambda>(c, f) q. pq_push (Node c f None None) q) fs q0 = q0 @ map (\<lambda>(c, f). Node c f None None) fs" for q0
    by (induction fs arbitrary: q0) (auto simp: pq_push_def)
  then show ?thesis by (simp add: fill_pq_def)
qed

lemma leafs_fill: "concat (map leafs (fill_pq fs)) = map fst fs"
  unfolding fill_pq_map by (induction fs) auto

lemma forest_ok_fill: "distinct (map fst fs) \<Longrightarrow> forest_ok (fst ` set fs) (fill_pq fs)"
  unfolding forest_ok_def leafs_fill by (auto simp: fill_pq_map)

lemma pq_pop_length: "pq_pop q n q' \<Longrightarrow> length q = Suc (length q')"
  by (auto elim: pq_pop.cases)

lemma pq_pop_forest:
  assumes "pq_pop q n q'" "forest_ok A q"
  shows "full n \<and> distinct (leafs n) \<and> set (leafs n) \<subseteq> A \<and> forest_ok (A - set (leafs n)) q'"
  using assms by (auto elim!: pq_pop.cases simp: forest_ok_def; blast)

lemma push_forest:
  assumes "forest_ok A q" "full l" "full r" "distinct (leafs l)" "distinct (leafs r)"
    "set (leafs l) \<inter> set (leafs r) = {}" "(set (leafs l) \<union> set (leafs r)) \<inter> A = {}"
  shows "forest_ok (A \<union> set (leafs l) \<union> set (leafs r)) (pq_push (Node c f (Some l) (Some r)) q)"
  using assms by (auto simp: forest_ok_def pq_push_def)

lemma merge_loop_forest: "merge_loop q q' \<Longrightarrow> forest_ok A q \<Longrightarrow> forest_ok A q' \<and> length q' \<le> 1"
proof (induction arbitrary: A rule: merge_loop.induct)
  case (merge_exit q) then show ?case by simp
next
  case (merge_iter q l q1 r q2 q')
  from pq_pop_forest[OF merge_iter.hyps(2) merge_iter.prems]
  have l: "full l" "distinct (leafs l)" "set (leafs l) \<subseteq> A" "forest_ok (A - set (leafs l)) q1" by simp_all
  from pq_pop_forest[OF merge_iter.hyps(3) l(4)]
  have r: "full r" "distinct (leafs r)" "set (leafs r) \<subseteq> A - set (leafs l)"
    "forest_ok (A - set (leafs l) - set (leafs r)) q2" by simp_all
  have "forest_ok ((A - set (leafs l) - set (leafs r)) \<union> set (leafs l) \<union> set (leafs r))
      (pq_push (Node (CHR 0x00) (freq l + freq r) (Some l) (Some r)) q2)"
    using r l by (intro push_forest) auto
  moreover have "(A - set (leafs l) - set (leafs r)) \<union> set (leafs l) \<union> set (leafs r) = A"
    using l(3) r(3) by auto
  ultimately show ?case using merge_iter.IH by simp
qed

lemma store_lookup:
  "distinct (map fst kvs) \<Longrightarrow> store kvs m k = (case map_of kvs k of None \<Rightarrow> m k | Some v \<Rightarrow> Some v)"
proof (induction kvs arbitrary: m)
  case Nil then show ?case by (simp add: store_def)
next
  case (Cons x kvs)
  obtain c s where x: "x = (c, s)" by (cases x)
  have "store (x # kvs) m = store kvs (m(c \<mapsto> s))" by (simp add: store_def x)
  moreover have "map_of kvs c = None" using Cons.prems by (simp add: x map_of_eq_None_iff)
  ultimately show ?case using Cons by (auto simp: x split: option.splits)
qed

lemma store_empty: "distinct (map fst kvs) \<Longrightarrow> store kvs Map.empty = map_of kvs"
  by (rule ext) (simp add: store_lookup split: option.splits)

lemma pq_pop_single: "pq_pop [n] m q' \<Longrightarrow> m = n \<and> q' = []"
  by (auto elim!: pq_pop.cases simp: append_eq_Cons_conv Cons_eq_append_conv)

lemma merge_loop_short: "merge_loop q q' \<Longrightarrow> length q \<le> 1 \<Longrightarrow> q' = q"
  by (induction rule: merge_loop.induct) auto

lemma build_tree_shape:
  assumes "build_tree fs root" "fs \<noteq> []" "distinct (map fst fs)"
  shows "(\<exists>c f. fs = [(c, f)] \<and> root = Node (CHR 0x00) f (Some (Node c f None None)) None)
       \<or> (2 \<le> length fs \<and> full root \<and> distinct (leafs root) \<and> set (leafs root) = fst ` set fs)"
  using assms(1)
proof cases
  case (build_treeI q1 q2 rest)
  from build_treeI(1) show ?thesis
  proof cases
    case (single single q')
    from single(2) obtain c f where fs: "fs = [(c, f)]"
      by (cases fs) (auto simp: fill_pq_map)
    with single(3) have s: "single = Node c f None None" "q' = []"
      using pq_pop_single by (auto simp: fill_pq_map)
    with single(1) have q1: "q1 = [Node (CHR 0x00) f (Some (Node c f None None)) None]"
      by (simp add: pq_push_def)
    with build_treeI(2) have "q2 = q1" using merge_loop_short by fastforce
    with build_treeI(3) q1 have "root = Node (CHR 0x00) f (Some (Node c f None None)) None"
      using pq_pop_single by blast
    with fs show ?thesis by blast
  next
    case several
    with assms(2) have len: "2 \<le> length fs"
      by (cases fs) (auto simp: fill_pq_map Suc_le_eq)
    from forest_ok_fill[OF assms(3)] several build_treeI(2)
    have ok: "forest_ok (fst ` set fs) q2" "length q2 \<le> 1"
      using merge_loop_forest by blast+
    from build_treeI(3) ok(2) have "q2 = [root]"
      by (auto elim!: pq_pop.cases)
    with ok(1) len show ?thesis by (simp add: forest_ok_def)
  qed
qed

lemma full_two_leafs:
  "full t \<Longrightarrow> 2 \<le> length (leafs t) \<Longrightarrow> \<exists>c f l r. t = Node c f (Some l) (Some r)"
  by (induction t rule: full.induct) auto

lemma build_codes_table:
  assumes "build_codes fs codes" "fs \<noteq> []" "distinct (map fst fs)"
  shows "\<exists>kvs. codes = map_of kvs \<and> good_table (fst ` set fs) kvs"
  using assms(1)
proof cases
  case (build_codesI root)
  from build_tree_shape[OF build_codesI(2) assms(2,3)] show ?thesis
  proof (elim disjE exE conjE)
    fix c f assume "fs = [(c, f)]" "root = Node (CHR 0x00) f (Some (Node c f None None)) None"
    then have "codes = map_of [(c, ''0'')]" "good_table (fst ` set fs) [(c, ''0'')]"
      by (auto simp: build_codesI(1) good_table_def prefix_free_def)
    then show ?thesis by blast
  next
    assume a: "2 \<le> length fs" "full root" "distinct (leafs root)" "set (leafs root) = fst ` set fs"
    have "length (leafs root) = length fs"
      using a(3,4) assms(3) by (metis distinct_card length_map set_map)
    with a obtain c f l r where root: "root = Node c f (Some l) (Some r)"
      using full_two_leafs by metis
    let ?kvs = "code_list root []"
    have d: "distinct (map fst ?kvs)" by (simp add: fst_code_list a(3))
    have "codes = map_of ?kvs"
      by (simp only: build_codesI(1) buildCode_code_list store_empty[OF d])
    moreover have "fst ` set ?kvs = fst ` set fs"
      using a(4) fst_code_list[of root "[]"] by (metis set_map)
    moreover have "prefix_free ?kvs" by (rule code_list_prefix_free[OF a(2)])
    moreover have "\<forall>x \<in> set ?kvs. snd x \<noteq> []"
      using code_list_nonempty by (metis prod.collapse)
    ultimately show ?thesis using d unfolding good_table_def by blast
  qed
qed

lemma encode_text_eq:
  "encode_text text codes encoded =
     (encoded @ concat (map (code_or_empty codes) text),
      (\<lambda>c. if c \<in> set text \<and> codes c = None then Some [] else codes c))"
proof (induction "text" arbitrary: codes encoded)
  case Nil then show ?case by simp
next
  case (Cons c cs)
  show ?case
  proof (cases "codes c")
    case None
    have h: "code_or_empty (codes(c \<mapsto> [])) = code_or_empty codes"
      by (rule ext) (simp add: code_or_empty_def None)
    have h0: "code_or_empty codes c = []" by (simp add: code_or_empty_def None)
    have e: "encode_text (c # cs) codes encoded = encode_text cs (codes(c \<mapsto> [])) encoded"
      using None by simp
    show ?thesis unfolding e Cons.IH h by (auto simp: None h0 fun_eq_iff)
  next
    case (Some s)
    then show ?thesis by (auto simp: Cons.IH code_or_empty_def fun_eq_iff)
  qed
qed

lemma dom_count_freq: "dom (count_freq text) = set text"
proof -
  have "dom (fold (\<lambda>c m. m(c \<mapsto> (case m c of None \<Rightarrow> 0 | Some k \<Rightarrow> k) + (1::int))) text m0) = dom m0 \<union> set text" for m0
    by (induction "text" arbitrary: m0) auto
  then show ?thesis by (simp add: count_freq_def)
qed

lemma iteration_of_keys: "iteration_of m kvs \<Longrightarrow> fst ` set kvs = dom m"
  by (force simp: iteration_of_def dom_map_of_conv_image_fst)

lemma char_roundtrip: "char_of_int (int_of_char c) = c"
proof -
  have "char_of (of_char c - (256::int)) = char_of (of_char c :: int)"
    by (simp add: char_of_eq_iff take_bit_eq_mod)
  then show ?thesis by (simp add: char_of_int_def int_of_char_def)
qed

lemma read_codes_snoc: "read_codes (pairs @ [(j, r)]) = (read_codes pairs)(r \<mapsto> char_of_int j)"
  by (simp add: read_codes_def)

lemma read_codes_lookup:
  "distinct (map snd pairs) \<Longrightarrow> (i, p) \<in> set pairs \<Longrightarrow> read_codes pairs p = Some (char_of_int i)"
proof (induction pairs rule: rev_induct)
  case Nil then show ?case by simp
next
  case (snoc x pairs)
  obtain j r where x: "x = (j, r)" by (cases x)
  show ?case
  proof (cases "p = r")
    case True
    with snoc.prems have "i = j" by (force simp: x)
    with True show ?thesis by (simp add: x read_codes_snoc)
  next
    case False
    with snoc show ?thesis by (simp add: x read_codes_snoc)
  qed
qed

lemma read_codes_dom: "dom (read_codes pairs) = snd ` set pairs"
proof (induction pairs rule: rev_induct)
  case Nil then show ?case by (simp add: read_codes_def)
next
  case (snoc x pairs)
  obtain j r where x: "x = (j, r)" by (cases x)
  show ?case unfolding x read_codes_snoc dom_fun_upd using snoc.IH by simp
qed

lemma decode_code:
  assumes "revCodes (a @ b) = Some c" "b \<noteq> []"
    "\<And>b'. strict_prefix b' b \<Longrightarrow> revCodes (a @ b') = None \<or> b' = []"
  shows "decode_loop revCodes (b @ rest) (decoded, a) = decode_loop revCodes rest (decoded @ [c], [])"
  using assms
proof (induction b arbitrary: a)
  case Nil then show ?case by simp
next
  case (Cons x b)
  show ?case
  proof (cases "b = []")
    case True
    with Cons.prems(1) show ?thesis by simp
  next
    case False
    have "strict_prefix [x] (x # b)" using False by (simp add: strict_prefix_def)
    with Cons.prems(3) have none: "revCodes (a @ [x]) = None" by blast
    have "decode_loop revCodes (b @ rest) (decoded, a @ [x]) = decode_loop revCodes rest (decoded @ [c], [])"
    proof (rule Cons.IH)
      show "revCodes ((a @ [x]) @ b) = Some c" using Cons.prems(1) by simp
      show "b \<noteq> []" by (rule False)
      fix b' assume "strict_prefix b' b"
      then have "strict_prefix (x # b') (x # b)" by (simp add: strict_prefix_def)
      with Cons.prems(3) have "revCodes (a @ x # b') = None" by blast
      then show "revCodes ((a @ [x]) @ b') = None \<or> b' = []" by simp
    qed
    with none show ?thesis by simp
  qed
qed

lemma pq_pop_first_Some: "q \<noteq> [] \<Longrightarrow> \<exists>n q'. pq_pop_first q = Some (n, q')"
  by (cases q) (auto split: option.splits)

lemma pq_pop_first_None: "pq_pop_first q = None \<longleftrightarrow> q = []"
  by (cases q) (auto split: option.splits)

lemma pq_pop_first_sound: "pq_pop_first q = Some (n, q') \<Longrightarrow> pq_pop q n q'"
proof (induction q arbitrary: n q')
  case Nil then show ?case by simp
next
  case (Cons x xs)
  show ?case
  proof (cases "pq_pop_first xs")
    case None
    then have "xs = []" by (simp add: pq_pop_first_None)
    with Cons.prems None have "n = x" "q' = []" by simp_all
    moreover have "pq_pop ([] @ x # []) x ([] @ [])" by (rule pq_popI) (simp_all add: cmp_def)
    ultimately show ?thesis using \<open>xs = []\<close> by simp
  next
    case (Some a)
    obtain m rest where a: "a = (m, rest)" by (cases a)
    from Cons.IH[OF Some[unfolded a]] obtain ys zs where
      xs: "xs = ys @ m # zs" "rest = ys @ zs" and least: "\<forall>y \<in> set xs. \<not> cmp m y"
      by (auto elim: pq_pop.cases)
    show ?thesis
    proof (cases "cmp x m")
      case True
      with Cons.prems Some a have r: "n = m" "q' = x # rest" by simp_all
      have "pq_pop ((x # ys) @ m # zs) m ((x # ys) @ zs)"
        using least True xs(1) by (intro pq_popI) (auto simp: cmp_def)
      then show ?thesis by (simp add: r xs)
    next
      case False
      with Cons.prems Some a have r: "n = x" "q' = xs" by simp_all
      have "\<forall>y \<in> set ([] @ x # xs). \<not> cmp x y"
        using least False by (fastforce simp: cmp_def)
      then have "pq_pop ([] @ x # xs) x ([] @ xs)"
        by (intro pq_popI) simp_all
      then show ?thesis by (simp add: r)
    qed
  qed
qed

lemma single_first_sound: "single_case q (single_first q)"
proof (cases "length q = 1")
  case True
  then have "q \<noteq> []" by auto
  then obtain n q' where p: "pq_pop_first q = Some (n, q')" using pq_pop_first_Some by blast
  then show ?thesis using True single[OF True pq_pop_first_sound[OF p]] by (simp add: single_first_def)
next
  case False
  then show ?thesis by (simp add: single_first_def several)
qed

lemma merge_first_sound: "merge_loop q (merge_first q)"
proof (induction q rule: merge_first.induct)
  case (1 q)
  show ?case
  proof (cases "length q > 1")
    case False
    then show ?thesis by (simp add: merge_first.simps[of q] merge_exit)
  next
    case True
    then have "q \<noteq> []" by auto
    then obtain l q1 where p1: "pq_pop_first q = Some (l, q1)" using pq_pop_first_Some by blast
    from pq_pop_length[OF pq_pop_first_sound[OF p1]] True have "q1 \<noteq> []" by auto
    then obtain r q2 where p2: "pq_pop_first q1 = Some (r, q2)" using pq_pop_first_Some by blast
    have "merge_loop (pq_push (Node (CHR 0x00) (freq l + freq r) (Some l) (Some r)) q2)
        (merge_first (pq_push (Node (CHR 0x00) (freq l + freq r) (Some l) (Some r)) q2))"
      using "1.IH"[OF True p1 _ p2] by simp
    then have "merge_loop q (merge_first (pq_push (Node (CHR 0x00) (freq l + freq r) (Some l) (Some r)) q2))"
      by (rule merge_iter[OF True pq_pop_first_sound[OF p1] pq_pop_first_sound[OF p2]])
    then show ?thesis using True p1 p2 by (simp add: merge_first.simps[of q])
  qed
qed

lemma good_table_rev:
  assumes good: "good_table A kvs" and it: "iteration_of (map_of kvs) cs"
    and mem: "(c, p) \<in> set kvs"
  shows "read_codes (map (\<lambda>(c, code). (int_of_char c, code)) cs) p = Some c"
    and "strict_prefix b p \<Longrightarrow> b \<noteq> [] \<Longrightarrow> read_codes (map (\<lambda>(c, code). (int_of_char c, code)) cs) b = None"
proof -
  let ?pairs = "map (\<lambda>(c, code). (int_of_char c, code)) cs"
  from good have dk: "distinct (map fst kvs)" and pf: "prefix_free kvs" by (simp_all add: good_table_def)
  from it have dc: "distinct (map fst cs)" and "map_of cs = map_of kvs" by (simp_all add: iteration_of_def)
  then have same: "set cs = set kvs" using dk by (simp add: map_of_inject_set)
  have snd_eq: "map snd ?pairs = map snd cs" by (induction cs) auto
  have "inj_on snd (set cs)"
    unfolding same using pf by (auto simp: prefix_free_def inj_on_def)
  moreover have "distinct cs" using dc by (rule distinct_map[THEN iffD1, THEN conjunct1])
  ultimately have d: "distinct (map snd ?pairs)" unfolding snd_eq by (simp add: distinct_map)
  have "(int_of_char c, p) \<in> set ?pairs" using mem same by force
  from read_codes_lookup[OF d this] show "read_codes ?pairs p = Some c" by (simp add: char_roundtrip)
  show "read_codes ?pairs b = None" if sp: "strict_prefix b p" and "b \<noteq> []"
  proof (rule ccontr)
    assume "read_codes ?pairs b \<noteq> None"
    then have "b \<in> dom (read_codes ?pairs)" by auto
    then have "b \<in> snd ` set kvs" unfolding read_codes_dom using same by force
    then obtain d where "(d, b) \<in> set kvs" by auto
    with pf mem sp have "(d, b) = (c, p)"
      unfolding prefix_free_def by (metis snd_conv strict_prefix_def)
    with sp show False by simp
  qed
qed

lemma decode_encoded:
  assumes good: "good_table A kvs" and it: "iteration_of (map_of kvs) cs" and sub: "set msg \<subseteq> A"
  shows "decode_loop (read_codes (map (\<lambda>(c, code). (int_of_char c, code)) cs))
           (concat (map (code_or_empty (map_of kvs)) msg)) (decoded, []) = (decoded @ msg, [])"
  using sub
proof (induction msg arbitrary: decoded)
  case Nil then show ?case by simp
next
  case (Cons c msg)
  let ?rev = "read_codes (map (\<lambda>(c, code). (int_of_char c, code)) cs)"
  from Cons.prems good obtain p where mem: "(c, p) \<in> set kvs"
    by (auto simp: good_table_def)
  with good have p: "map_of kvs c = Some p" "p \<noteq> []" by (auto simp: good_table_def)
  have "decode_loop ?rev (p @ concat (map (code_or_empty (map_of kvs)) msg)) (decoded, [])
      = decode_loop ?rev (concat (map (code_or_empty (map_of kvs)) msg)) (decoded @ [c], [])"
  proof (rule decode_code)
    show "?rev ([] @ p) = Some c" using good_table_rev(1)[OF good it mem] by simp
    show "p \<noteq> []" by (rule p(2))
    fix b' assume "strict_prefix b' p"
    then show "?rev ([] @ b') = None \<or> b' = []"
      using good_table_rev(2)[OF good it mem] by auto
  qed
  also have "\<dots> = ((decoded @ [c]) @ msg, [])" using Cons.prems by (intro Cons.IH) simp
  finally have "decode_loop ?rev (p @ concat (map (code_or_empty (map_of kvs)) msg)) (decoded, [])
      = (decoded @ c # msg, [])" by simp
  moreover have "code_or_empty (map_of kvs) c = p" by (simp add: code_or_empty_def p(1))
  ultimately show ?case by simp
qed

lemma main_encode_run:
  assumes "main_encode text r" "text \<noteq> []"
  shows "\<exists>kvs cs. good_table (set text) kvs \<and> iteration_of (map_of kvs) cs \<and>
     r = Inr (concat (map (code_or_empty (map_of kvs)) text),
              map (\<lambda>(c, code). (int_of_char c, code)) cs)"
  using assms(1)
proof cases
  case encode_empty
  with assms(2) show ?thesis by simp
next
  case (encode_run fs codes encoded codes' cs)
  from encode_run(3) have keys: "fst ` set fs = set text" and d: "distinct (map fst fs)"
    using iteration_of_keys[of "count_freq text" fs] by (simp_all add: dom_count_freq iteration_of_def)
  with assms(2) have "fs \<noteq> []" by auto
  from build_codes_table[OF encode_run(4) this d] keys obtain kvs where
    kvs: "codes = map_of kvs" "good_table (set text) kvs" by auto
  then have "dom codes = set text"
    by (simp add: good_table_def dom_map_of_conv_image_fst)
  then have h: "(\<lambda>c. if c \<in> set text \<and> codes c = None then Some [] else codes c) = codes"
    by (auto simp: fun_eq_iff)
  from encode_run(5) have "encoded = concat (map (code_or_empty codes) text)"
    "codes' = (\<lambda>c. if c \<in> set text \<and> codes c = None then Some [] else codes c)"
    unfolding encode_text_eq by simp_all
  with h have "encoded = concat (map (code_or_empty codes) text)" "codes' = codes" by simp_all
  with encode_run(1,6) kvs show ?thesis by blast
qed

lemma entries_in_iteration:
  assumes "dom m \<subseteq> set ks"
  shows "iteration_of m (entries_in ks m)"
proof -
  let ?f = "\<lambda>k. case m k of None \<Rightarrow> [] | Some v \<Rightarrow> [(k, v)]"
  have a: "map fst (concat (map ?f xs)) = filter (\<lambda>k. m k \<noteq> None) xs" for xs
    by (induction xs) (auto split: option.splits)
  have b: "map_of (concat (map ?f xs)) k = (if k \<in> set xs then m k else None)" for xs k
    by (induction xs) (auto split: option.splits simp: map_add_def)
  have "distinct (map fst (entries_in ks m))"
    unfolding entries_in_def a by simp
  moreover have "map_of (entries_in ks m) k = m k" for k
    using assms unfolding entries_in_def b by (cases "m k") auto
  then have "map_of (entries_in ks m) = m" by (rule ext)
  ultimately show ?thesis by (simp add: iteration_of_def)
qed

lemma merge_loop_nonempty: "merge_loop q q' \<Longrightarrow> q \<noteq> [] \<Longrightarrow> q' \<noteq> []"
  by (induction rule: merge_loop.induct) (auto simp: pq_push_def)

lemma single_case_nonempty: "single_case q q' \<Longrightarrow> q \<noteq> [] \<Longrightarrow> q' \<noteq> []"
  by (induction rule: single_case.induct) (auto simp: pq_push_def)

lemma build_tree_first_sound:
  assumes "fs \<noteq> []"
  shows "\<exists>root. build_tree_first fs = Some root \<and> build_tree fs root"
proof -
  let ?q1 = "single_first (fill_pq fs)" and ?q2 = "merge_first (single_first (fill_pq fs))"
  have s: "single_case (fill_pq fs) ?q1" by (rule single_first_sound)
  have m: "merge_loop ?q1 ?q2" by (rule merge_first_sound)
  from assms have "fill_pq fs \<noteq> []" by (simp add: fill_pq_map)
  with s m have "?q2 \<noteq> []" using single_case_nonempty merge_loop_nonempty by blast
  then obtain root rest where p: "pq_pop_first ?q2 = Some (root, rest)"
    using pq_pop_first_Some by blast
  from build_treeI[OF s m pq_pop_first_sound[OF p]] p show ?thesis
    by (simp add: build_tree_first_def)
qed

lemma main_encode_first_sound: "main_encode text (main_encode_first text)"
proof (cases "text = []")
  case True
  then show ?thesis by (simp add: main_encode_first_def encode_empty)
next
  case False
  let ?fs = "entries_in text (count_freq text)"
  have it: "iteration_of (count_freq text) ?fs"
    by (rule entries_in_iteration) (simp add: dom_count_freq)
  then have keys: "fst ` set ?fs = set text" and d: "distinct (map fst ?fs)"
    using iteration_of_keys[OF it] by (simp_all add: dom_count_freq iteration_of_def)
  with False have ne: "?fs \<noteq> []" by auto
  from build_tree_first_sound[OF ne] obtain root where
    root: "build_tree_first ?fs = Some root" "build_tree ?fs root" by blast
  let ?codes = "buildCode (Some root) [] Map.empty"
  have bc: "build_codes ?fs ?codes" by (rule build_codesI[OF root(2)])
  obtain encoded codes' where e: "encode_text text ?codes [] = (encoded, codes')"
    by (cases "encode_text text ?codes []")
  from build_codes_table[OF bc ne d] obtain kvs where
    "?codes = map_of kvs" "fst ` set kvs = fst ` set ?fs" by (auto simp: good_table_def)
  with keys have "dom ?codes = set text"
    by (simp add: dom_map_of_conv_image_fst)
  with e have "dom codes' \<subseteq> set text"
    unfolding encode_text_eq by (auto split: if_splits)
  then have "iteration_of codes' (entries_in text codes')" by (rule entries_in_iteration)
  from encode_run[OF False it bc e this] show ?thesis
    using False root(1) e by (simp add: main_encode_first_def)
qed

lemma distinct_set_single:
  assumes "distinct xs" "set xs = {a}"
  shows "xs = [a]"
proof (cases xs)
  case Nil
  with assms(2) show ?thesis by simp
next
  case (Cons x ys)
  with assms have "x = a" "a \<notin> set ys" "set ys \<subseteq> {a}" by auto
  then have "ys = []" by (cases ys) auto
  with Cons \<open>x = a\<close> show ?thesis by simp
qed

lemma build_codes_single:
  assumes "build_codes [(c, f)] codes"
  shows "codes = [c \<mapsto> ''0'']"
  using assms
proof cases
  case (build_codesI root)
  from build_tree_shape[OF build_codesI(2)] have "root = Node (CHR 0x00) f (Some (Node c f None None)) None"
    by auto
  then show ?thesis by (simp add: build_codesI(1))
qed

lemma decode_loop_split:
  "decode_loop revCodes bits (dec0, cur0) = (decoded, current) \<Longrightarrow>
   \<exists>cs ds. cur0 @ bits = concat cs @ current \<and> decoded = dec0 @ ds \<and>
     map revCodes cs = map Some ds \<and> (bits \<noteq> [] \<and> current \<noteq> [] \<longrightarrow> revCodes current = None)"
proof (induction bits arbitrary: dec0 cur0)
  case Nil
  then have "cur0 @ [] = concat [] @ current \<and> decoded = dec0 @ [] \<and> map revCodes [] = map Some []"
    by simp
  then show ?case by blast
next
  case (Cons b bits)
  show ?case
  proof (cases "revCodes (cur0 @ [b])")
    case None
    with Cons.prems have "decode_loop revCodes bits (dec0, cur0 @ [b]) = (decoded, current)" by simp
    from Cons.IH[OF this] obtain cs ds where
      s: "(cur0 @ [b]) @ bits = concat cs @ current" "decoded = dec0 @ ds" "map revCodes cs = map Some ds"
        "bits \<noteq> [] \<and> current \<noteq> [] \<longrightarrow> revCodes current = None" by blast
    have "current = cur0 @ [b]" if "bits = []"
      using that \<open>decode_loop revCodes bits (dec0, cur0 @ [b]) = (decoded, current)\<close> by simp
    with None s(4) have "current \<noteq> [] \<longrightarrow> revCodes current = None" by (cases "bits = []") auto
    with s(1,2,3) show ?thesis by auto
  next
    case (Some c)
    with Cons.prems have run: "decode_loop revCodes bits (dec0 @ [c], []) = (decoded, current)" by simp
    from Cons.IH[OF this] obtain cs ds where
      s: "[] @ bits = concat cs @ current" "decoded = (dec0 @ [c]) @ ds" "map revCodes cs = map Some ds"
        "bits \<noteq> [] \<and> current \<noteq> [] \<longrightarrow> revCodes current = None" by blast
    have "current = []" if "bits = []" using that run by simp
    with s(4) have l: "current \<noteq> [] \<longrightarrow> revCodes current = None" by (cases "bits = []") auto
    have "cur0 @ b # bits = concat ((cur0 @ [b]) # cs) @ current" using s(1) by simp
    moreover have "decoded = dec0 @ (c # ds)" using s(2) by simp
    moreover have "map revCodes ((cur0 @ [b]) # cs) = map Some (c # ds)" using s(3) Some by simp
    ultimately show ?thesis using l by blast
  qed
qed

text \<open>
  In every run of the encode mode the table handed to the encoding loop was
  built from the frequency map of the same text, so every character of the
  text has an entry, and the entry is a non-empty code.
\<close>

lemma encode_symbols_have_codes:
  assumes "iteration_of (count_freq text) fs" "build_codes fs codes" "c \<in> set text"
  shows "\<exists>p. codes c = Some p \<and> p \<noteq> []"
proof -
  from assms(1) have keys: "fst ` set fs = set text" and d: "distinct (map fst fs)"
    using iteration_of_keys[of "count_freq text" fs] by (simp_all add: dom_count_freq iteration_of_def)
  with assms(3) have "fs \<noteq> []" by auto
  from build_codes_table[OF assms(2) this d] keys obtain kvs where
    kvs: "codes = map_of kvs" "good_table (set text) kvs" by auto
  with assms(3) have "c \<in> fst ` set kvs" by (simp add: good_table_def)
  then obtain p where mem: "(c, p) \<in> set kvs" by force
  with kvs show ?thesis by (auto simp: good_table_def)
qed

section \<open>Lemmas about the bit channel\<close>

lemma get_set_lsb: "get_lsb (set_lsb w v) = v"
proof -
  have "odd (set_lsb w v) = v"
    by (simp add: set_lsb_def even_or_iff even_and_iff)
  moreover have "get_lsb x = odd x" for x
    by (simp add: get_lsb_def and_one_eq mod_2_eq_odd)
  ultimately show ?thesis by simp
qed

lemma length_write_slot: "length (write_slot buf i v) = length buf"
  by (simp add: write_slot_def split: prod.splits)

lemma read_write_slot:
  "i div 3 < length buf \<Longrightarrow> read_slot (write_slot buf i v) j = (if j = i then v else read_slot buf j)"
proof -
  assume a: "i div 3 < length buf"
  obtain r g b where p: "buf ! (i div 3) = (r, g, b)" by (cases "buf ! (i div 3)")
  have m: "i mod 3 = 0 \<or> i mod 3 = 1 \<or> i mod 3 = 2" by arith
  show ?thesis
  proof (cases "j div 3 = i div 3")
    case True
    have "j = i \<longleftrightarrow> j mod 3 = i mod 3" using True by (metis div_mult_mod_eq)
    moreover have "j mod 3 = 0 \<or> j mod 3 = 1 \<or> j mod 3 = 2" by arith
    ultimately show ?thesis using a p m True
      by (auto simp: read_slot_def write_slot_def get_set_lsb)
  next
    case False
    then have "j \<noteq> i" by auto
    with False show ?thesis using a p by (simp add: read_slot_def write_slot_def)
  qed
qed

lemma length_write_from: "length (write_from i vs buf) = length buf"
  by (induction vs arbitrary: i buf) (simp_all add: length_write_slot)

lemma read_write_from:
  "i + length vs \<le> 3 * length buf \<Longrightarrow>
   read_slot (write_from i vs buf) j = (if i \<le> j \<and> j < i + length vs then vs ! (j - i) else read_slot buf j)"
proof (induction vs arbitrary: i buf)
  case Nil then show ?case by auto
next
  case (Cons v vs)
  from Cons.prems have d: "i div 3 < length buf" by simp
  have "read_slot (write_from (Suc i) vs (write_slot buf i v)) j =
     (if Suc i \<le> j \<and> j < Suc i + length vs then vs ! (j - Suc i) else read_slot (write_slot buf i v) j)"
    using Cons.prems by (intro Cons.IH) (simp add: length_write_slot)
  then show ?case using d by (auto simp: read_write_slot nth_Cons')
qed

lemma from_bits_snoc: "from_bits (bs @ [b]) = 2 * from_bits bs + (if b then 1 else 0)"
  by (simp add: from_bits_def)

lemma from_to_bits: "from_bits (to_bits k n) = n mod 2 ^ k"
proof (induction k arbitrary: n)
  case 0 then show ?case by (simp add: from_bits_def)
next
  case (Suc k)
  have "n mod (2 * 2 ^ k) = 2 * (n div 2 mod 2 ^ k) + n mod 2"
    by (simp add: mod_mult2_eq add.commute)
  then show ?case by (simp add: from_bits_snoc Suc.IH mod2_eq_if)
qed

lemma length_to_bits: "length (to_bits k n) = k"
  by (induction k arbitrary: n) simp_all

lemma from_bits_bound: "from_bits bs < 2 ^ length bs"
proof (induction bs rule: rev_induct)
  case Nil then show ?case by (simp add: from_bits_def)
next
  case (snoc b bs) then show ?case by (simp add: from_bits_snoc)
qed

lemma extract_length: "extract_bits buf = Inr bs \<Longrightarrow> length bs < 2 ^ 24"
proof -
  assume a: "extract_bits buf = Inr bs"
  have "from_bits (map (read_slot buf) [0..<24]) < 2 ^ length (map (read_slot buf) [0..<24])"
    by (rule from_bits_bound)
  then have "from_bits (map (read_slot buf) [0..<24]) < 2 ^ 24" by simp
  with a show ?thesis by (auto simp: extract_bits_def Let_def split: if_splits)
qed

lemma embed_fits: "24 + length bits \<le> 3 * length buf \<Longrightarrow> snd (embed buf bits) = None"
  by (simp add: embed_def)

lemma embed_roundtrip:
  assumes "length bits < 2 ^ 24" "24 + length bits \<le> 3 * length buf"
  shows "extract_bits (fst (embed buf bits)) = Inr bits"
proof -
  let ?s = "to_bits 24 (length bits) @ bits"
  let ?buf = "write_from 0 ?s buf"
  have len: "length ?s = 24 + length bits" by (simp add: length_to_bits)
  have e: "embed buf bits = (?buf, None)" using assms(2) by (simp add: embed_def)
  have rd: "read_slot ?buf j = ?s ! j" if "j < 24 + length bits" for j
    using read_write_from[of 0 ?s buf j] assms(2) that len by simp
  have "map (read_slot ?buf) [0..<24] = to_bits 24 (length bits)"
    by (rule nth_equalityI) (simp_all add: length_to_bits rd nth_append)
  then have n: "from_bits (map (read_slot ?buf) [0..<24]) = length bits"
    using assms(1) by (simp add: from_to_bits)
  have "map (read_slot ?buf) [24..<24 + length bits] = bits"
    by (rule nth_equalityI) (simp_all add: length_to_bits rd nth_append)
  with n assms(2) have "extract_bits ?buf = Inr bits"
    by (simp add: extract_bits_def length_write_from Let_def)
  with e show ?thesis by simp
qed

section \<open>Properties of the Huffman coder\<close>

text \<open>
  C1 (round trip).  For every non-empty text the encode mode has an outcome,
  and for every outcome (whatever the iteration orders of the maps and the
  choices of the queue) the decode mode, run on the encoded bits and on the
  code map that the encode mode printed, yields the original text, without
  the warning.
\<close>

theorem roundtrip_encode_decode:
  assumes "text \<noteq> []"
  shows "(\<exists>r. main_encode text r) \<and>
    (\<forall>r. main_encode text r \<longrightarrow>
       (\<exists>encoded pairs. r = Inr (encoded, pairs) \<and> main_decode encoded pairs = Inr (text, False)))"
proof (intro conjI allI impI)
  show "\<exists>r. main_encode text r" using main_encode_first_sound by blast
next
  fix r assume run: "main_encode text r"
  from main_encode_run[OF run assms] obtain kvs cs where
    good: "good_table (set text) kvs" and it: "iteration_of (map_of kvs) cs" and
    r: "r = Inr (concat (map (code_or_empty (map_of kvs)) text), map (\<lambda>(c, code). (int_of_char c, code)) cs)"
    by blast
  let ?enc = "concat (map (code_or_empty (map_of kvs)) text)"
  let ?pairs = "map (\<lambda>(c, code). (int_of_char c, code)) cs"
  obtain c rest where t: "text = c # rest" using assms by (cases "text") auto
  then have "c \<in> fst ` set kvs" using good by (simp add: good_table_def)
  then obtain p where mem: "(c, p) \<in> set kvs" by force
  with good have "map_of kvs c = Some p" "p \<noteq> []" by (auto simp: good_table_def)
  then have ne: "?enc \<noteq> []" by (simp add: t code_or_empty_def)
  have "read_codes ?pairs p = Some c" by (rule good_table_rev(1)[OF good it mem])
  then have nm: "read_codes ?pairs \<noteq> Map.empty" by auto
  have "decode_loop (read_codes ?pairs) ?enc ([], []) = ([] @ text, [])"
    by (rule decode_encoded[OF good it]) simp
  then have "main_decode ?enc ?pairs = Inr (text, False)"
    using ne nm by (simp add: main_decode_def decode_bits_def)
  with r show "\<exists>encoded pairs. r = Inr (encoded, pairs) \<and> main_decode encoded pairs = Inr (text, False)"
    by blast
qed

theorem roundtrip_encode_decode_witness:
  "''abracadabra'' \<noteq> [] \<and>
   main_encode ''abracadabra''
     (Inr (''01101110100010101101110'',
           [(99, ''100''), (100, ''101''), (98, ''110''), (114, ''111''), (97, ''0'')])) \<and>
   main_decode ''01101110100010101101110''
     [(99, ''100''), (100, ''101''), (98, ''110''), (114, ''111''), (97, ''0'')]
   = Inr (''abracadabra'', False)"
proof -
  have ne: "''abracadabra'' \<noteq> []" by simp
  have ev: "main_encode_first ''abracadabra'' =
      Inr (''01101110100010101101110'',
           [(99, ''100''), (100, ''101''), (98, ''110''), (114, ''111''), (97, ''0'')])"
    by code_simp
  have run: "main_encode ''abracadabra''
     (Inr (''01101110100010101101110'',
           [(99, ''100''), (100, ''101''), (98, ''110''), (114, ''111''), (97, ''0'')]))"
    using main_encode_first_sound[of "''abracadabra''"] unfolding ev .
  from roundtrip_encode_decode[OF ne] run show ?thesis by fastforce
qed

text \<open>
  C3 (prefix-free).  Let the frequency map be non-empty, \<open>fs\<close> the list of its
  entries in any iteration order, and \<open>codes\<close> any code table that building
  the tree and assigning the codes can produce.  Then no code of the table is
  a prefix of the code of another character.
\<close>

theorem codes_prefix_free:
  assumes "fs \<noteq> []" "distinct (map fst fs)" "build_codes fs codes"
    "codes c = Some p" "codes d = Some q" "c \<noteq> d"
  shows "\<not> prefix p q"
proof -
  from build_codes_table[OF assms(3,1,2)] obtain kvs where
    kvs: "codes = map_of kvs" "good_table (fst ` set fs) kvs" by blast
  with assms(4,5) have "(c, p) \<in> set kvs" "(d, q) \<in> set kvs" by (auto dest: map_of_SomeD)
  with kvs(2) assms(6) show ?thesis unfolding good_table_def prefix_free_def by fastforce
qed

theorem codes_prefix_free_witness:
  "build_codes [(CHR ''a'', 2), (CHR ''b'', 1), (CHR ''c'', 1)]
     (buildCode (Some (Node (CHR 0x00) 4 (Some (Node (CHR ''a'') 2 None None))
        (Some (Node (CHR 0x00) 2 (Some (Node (CHR ''b'') 1 None None))
           (Some (Node (CHR ''c'') 1 None None)))))) [] Map.empty) \<and>
   buildCode (Some (Node (CHR 0x00) 4 (Some (Node (CHR ''a'') 2 None None))
        (Some (Node (CHR 0x00) 2 (Some (Node (CHR ''b'') 1 None None))
           (Some (Node (CHR ''c'') 1 None None)))))) [] Map.empty (CHR ''a'') = Some ''0'' \<and>
   buildCode (Some (Node (CHR 0x00) 4 (Some (Node (CHR ''a'') 2 None None))
        (Some (Node (CHR 0x00) 2 (Some (Node (CHR ''b'') 1 None None))
           (Some (Node (CHR ''c'') 1 None None)))))) [] Map.empty (CHR ''b'') = Some ''10'' \<and>
   \<not> prefix ''0'' ''10''"
proof -
  let ?fs = "[(CHR ''a'', 2::int), (CHR ''b'', 1), (CHR ''c'', 1)]"
  let ?root = "Node (CHR 0x00) 4 (Some (Node (CHR ''a'') 2 None None))
        (Some (Node (CHR 0x00) 2 (Some (Node (CHR ''b'') 1 None None))
           (Some (Node (CHR ''c'') 1 None None))))"
  have ev: "build_tree_first ?fs = Some ?root" by code_simp
  have ne: "?fs \<noteq> []" by simp
  from build_tree_first_sound[OF ne] ev have "build_tree ?fs ?root" by simp
  then have bc: "build_codes ?fs (buildCode (Some ?root) [] Map.empty)" by (rule build_codesI)
  have a: "buildCode (Some ?root) [] Map.empty (CHR ''a'') = Some ''0''" by simp
  have b: "buildCode (Some ?root) [] Map.empty (CHR ''b'') = Some ''10''" by simp
  have "\<not> prefix ''0'' ''10''"
    by (rule codes_prefix_free[OF ne _ bc a b]) simp_all
  with bc a b show ?thesis by blast
qed

text \<open>
  C5 (single symbol).  If the text contains exactly one distinct character
  \<open>c\<close>, then every code table built from it is the table with the single
  entry \<open>c\<close>, whose code is the string 0; the encode mode has an outcome, and
  every outcome consists of one bit 0 per character of the text and of the
  code map with that single entry.
\<close>

theorem single_symbol_code:
  assumes "set text = {c}"
  shows "(\<forall>fs codes. iteration_of (count_freq text) fs \<longrightarrow> build_codes fs codes \<longrightarrow>
            codes = [c \<mapsto> ''0'']) \<and>
    (\<exists>r. main_encode text r) \<and>
    (\<forall>r. main_encode text r \<longrightarrow>
       r = Inr (replicate (length text) (CHR ''0''), [(int_of_char c, ''0'')]))"
proof (intro conjI allI impI)
  show "\<exists>r. main_encode text r" using main_encode_first_sound by blast
next
  fix fs codes assume it: "iteration_of (count_freq text) fs" and bc: "build_codes fs codes"
  from it have "set (map fst fs) = {c}" and d: "distinct (map fst fs)"
    using iteration_of_keys[of "count_freq text" fs] assms
    by (simp_all add: dom_count_freq iteration_of_def)
  with d have "map fst fs = [c]" by (intro distinct_set_single)
  then obtain f where "fs = [(c, f)]" by auto
  with bc show "codes = [c \<mapsto> ''0'']" using build_codes_single by blast
next
  fix r assume "main_encode text r"
  then show "r = Inr (replicate (length text) (CHR ''0''), [(int_of_char c, ''0'')])"
  proof cases
    case encode_empty
    with assms show ?thesis by simp
  next
    case (encode_run fs codes encoded codes' cs)
    from encode_run(3) have "set (map fst fs) = {c}" and d: "distinct (map fst fs)"
      using iteration_of_keys[of "count_freq text" fs] assms
      by (simp_all add: dom_count_freq iteration_of_def)
    with d have "map fst fs = [c]" by (intro distinct_set_single)
    then obtain f where "fs = [(c, f)]" by auto
    with encode_run(4) have codes: "codes = [c \<mapsto> ''0'']" using build_codes_single by blast
    have "map (code_or_empty codes) text = map (\<lambda>_. ''0'') text"
      using assms by (auto simp: codes code_or_empty_def)
    then have conc: "concat (map (code_or_empty codes) text) = replicate (length text) (CHR ''0'')"
      by (simp add: map_replicate_const)
    have "(\<lambda>x. if x \<in> set text \<and> codes x = None then Some [] else codes x) = codes"
      using assms by (auto simp: fun_eq_iff codes)
    with encode_run(5) conc have e: "encoded = replicate (length text) (CHR ''0'')" "codes' = codes"
      unfolding encode_text_eq by simp_all
    from encode_run(6) have dc: "distinct (map fst cs)" and "map_of cs = map_of [(c, ''0'')]"
      by (simp_all add: iteration_of_def e codes)
    then have "set cs = {(c, ''0'')}" using map_of_inject_set[of cs "[(c, ''0'')]"] by simp
    moreover have "distinct cs" using dc by (simp add: distinct_map)
    ultimately have "cs = [(c, ''0'')]" by (intro distinct_set_single)
    with encode_run(1) e show ?thesis by simp
  qed
qed

theorem single_symbol_code_witness:
  "set ''aaaa'' = {CHR ''a''} \<and> main_encode ''aaaa'' (Inr (''0000'', [(97, ''0'')]))"
proof -
  have s: "set ''aaaa'' = {CHR ''a''}" by simp
  from single_symbol_code[OF s] obtain r where
    r: "main_encode ''aaaa'' r" "r = Inr (replicate (length ''aaaa'') (CHR ''0''), [(int_of_char (CHR ''a''), ''0'')])"
    by blast
  have "r = Inr (''0000'', [(97, ''0'')])" unfolding r(2) by (simp add: int_of_char_def)
  with r(1) s show ?thesis by simp
qed


text \<open>
  C6 (truncated stream).  If the decoding loop ends with a non-empty
  candidate, decoding does not fail: it outputs the characters decoded so
  far and raises the warning.  The bits consumed are exactly the matched
  codes of those characters, followed by the dangling candidate, which
  matches no entry.  In the decode mode this is the result whenever the code
  map read is not empty.
\<close>

theorem truncated_decode_reports:
  assumes "decode_loop revCodes bits ([], []) = (decoded, current)" "current \<noteq> []"
  shows "decode_bits revCodes bits = (decoded, True) \<and>
    (\<exists>cs. bits = concat cs @ current \<and> map revCodes cs = map Some decoded) \<and>
    revCodes current = None \<and>
    (read_codes pairs = revCodes \<and> revCodes \<noteq> Map.empty \<longrightarrow>
       main_decode bits pairs = Inr (decoded, True))"
proof -
  have db: "decode_bits revCodes bits = (decoded, True)"
    using assms by (simp add: decode_bits_def)
  from assms have ne: "bits \<noteq> []" by (cases bits) auto
  from decode_loop_split[OF assms(1)] obtain cs ds where
    s: "[] @ bits = concat cs @ current" "decoded = [] @ ds" "map revCodes cs = map Some ds"
      "bits \<noteq> [] \<and> current \<noteq> [] \<longrightarrow> revCodes current = None"
    by blast
  from s(4) ne assms(2) have "revCodes current = None" by simp
  moreover from s(1,2,3) have "\<exists>cs. bits = concat cs @ current \<and> map revCodes cs = map Some decoded"
    by auto
  moreover have "main_decode bits pairs = Inr (decoded, True)"
    if "read_codes pairs = revCodes" "revCodes \<noteq> Map.empty"
    using that ne db by (simp add: main_decode_def)
  ultimately show ?thesis using db by blast
qed

theorem truncated_decode_reports_witness:
  "decode_loop (read_codes [(97, ''0''), (98, ''10'')]) ''01'' ([], []) = (''a'', ''1'') \<and>
   ''1'' \<noteq> [] \<and>
   main_decode ''01'' [(97, ''0''), (98, ''10'')] = Inr (''a'', True)"
proof -
  let ?rev = "read_codes [(97, ''0''), (98, ''10'')]"
  have a: "char_of_int 97 = CHR ''a''"
    using char_roundtrip[of "CHR ''a''"] by (simp add: int_of_char_def)
  have l: "decode_loop ?rev ''01'' ([], []) = (''a'', ''1'')"
    by (simp add: read_codes_def a)
  have n: "''1'' \<noteq> []" by simp
  have m: "?rev \<noteq> Map.empty" by (simp add: read_codes_def)
  from truncated_decode_reports[OF l n, of "[(97, ''0''), (98, ''10'')]"] m
  have "main_decode ''01'' [(97, ''0''), (98, ''10'')] = Inr (''a'', True)" by blast
  with l n show ?thesis by blast
qed

text \<open>
  C8 (empty input).  For the empty text the encode mode has exactly one
  outcome, the error for an empty text: no frequency table, tree or code
  table is produced.  The frequency map of a text is empty only for the
  empty text, so the same holds for every run whose frequency map would be
  empty.
\<close>

theorem empty_text_rejected:
  "(main_encode [] r \<longleftrightarrow> r = Inl EmptyText) \<and>
   (count_freq text = Map.empty \<longrightarrow> (main_encode text r \<longleftrightarrow> r = Inl EmptyText))"
proof -
  have a: "main_encode [] r \<longleftrightarrow> r = Inl EmptyText"
    by (auto intro: encode_empty elim: main_encode.cases)
  have "text = []" if "count_freq text = Map.empty"
    using dom_count_freq[of "text"] that by simp
  with a show ?thesis by blast
qed

theorem empty_text_rejected_witness:
  "count_freq [] = Map.empty \<and> main_encode [] (Inl EmptyText)"
proof -
  have e: "count_freq [] = Map.empty" by (simp add: count_freq_def)
  from empty_text_rejected[of "Inl EmptyText" "[]"] e show ?thesis by simp
qed

text \<open>
  C9 (missing code table), as claimed: the decode mode fails with the error
  for a missing code map whenever no code map is supplied.  For the empty
  bit string and no code map the error is the one for empty bits, which is
  checked first.
\<close>

theorem missing_code_map_counterexample:
  "read_codes [] = Map.empty \<and> main_decode [] [] = Inl EmptyBits \<and>
   main_decode [] [] \<noteq> Inl NoCodeMap"
  by (simp add: read_codes_def main_decode_def)

text \<open>
  C9, amended.  When no code map is supplied, the decode mode fails and
  produces no text, whatever the bit string; for a non-empty bit string the
  error is the one for a missing code map.
\<close>

theorem missing_code_map_rejected:
  assumes "read_codes pairs = Map.empty"
  shows "(\<exists>e. main_decode bits pairs = Inl e) \<and>
    (bits \<noteq> [] \<longrightarrow> main_decode bits pairs = Inl NoCodeMap)"
  using assms by (simp add: main_decode_def)

theorem missing_code_map_rejected_witness:
  "read_codes [] = Map.empty \<and> ''01'' \<noteq> [] \<and> main_decode ''01'' [] = Inl NoCodeMap"
proof -
  have e: "read_codes [] = Map.empty" by (simp add: read_codes_def)
  from missing_code_map_rejected[OF e, of "''01''"] e show ?thesis by simp
qed

text \<open>
  C10 (empty bits).  For the empty bit string the decode mode fails with the
  error for empty bits, whatever code map is supplied: the check precedes
  the reading of the code map.
\<close>

theorem empty_bits_rejected: "main_decode [] pairs = Inl EmptyBits"
  by (simp add: main_decode_def)

section \<open>Properties of the bit channel\<close>

text \<open>
  C2 (header round trip), as claimed: extraction after embedding returns the
  bit string for every bit string that, with the 24-bit header, fits the
  buffer.  A payload of \<open>2^24\<close> bits fits a buffer of 5592414 pixels
  (16777242 bit-slots), and embedding succeeds; but its length cannot be
  written in 24 bits, and whatever the header holds, extraction returns
  fewer than \<open>2^24\<close> bits.
\<close>

theorem header_roundtrip_counterexample:
  "24 + length (replicate 16777216 False) \<le> 3 * length (replicate 5592414 (0 :: 8 word, 0 :: 8 word, 0 :: 8 word)) \<and>
   snd (embed (replicate 5592414 (0, 0, 0)) (replicate 16777216 False)) = None \<and>
   extract_bits (fst (embed (replicate 5592414 (0, 0, 0)) (replicate 16777216 False)))
     \<noteq> Inr (replicate 16777216 False)"
proof -
  let ?bits = "replicate 16777216 False"
  let ?buf = "replicate 5592414 (0 :: 8 word, 0 :: 8 word, 0 :: 8 word)"
  have lb: "length ?bits = 16777216" and lp: "length ?buf = 5592414"
    by (simp_all only: length_replicate)
  have fits: "24 + length ?bits \<le> 3 * length ?buf" unfolding lb lp by simp
  have "extract_bits (fst (embed ?buf ?bits)) \<noteq> Inr ?bits"
  proof
    assume "extract_bits (fst (embed ?buf ?bits)) = Inr ?bits"
    then have "length ?bits < 2 ^ 24" by (rule extract_length)
    then show False unfolding lb by simp
  qed
  then show ?thesis using fits embed_fits[OF fits] by (intro conjI)
qed

text \<open>
  C2, amended.  For every pixel buffer and every bit string of fewer than
  \<open>2^24\<close> bits whose length plus the 24-bit header fits in the \<open>3 \<times> pixelCount\<close>
  bit-slots, embedding succeeds and extraction from the resulting buffer
  returns exactly the bit string.  This covers the payload lengths 0, 1, 23,
  24 and 1,000,000.
\<close>

theorem extract_embed_roundtrip:
  assumes "length bits < 2 ^ 24" "24 + length bits \<le> 3 * length buf"
  shows "snd (embed buf bits) = None \<and> extract_bits (fst (embed buf bits)) = Inr bits"
  using assms by (simp add: embed_fits embed_roundtrip)

theorem extract_embed_roundtrip_witness:
  "length [True] < (2::nat) ^ 24 \<and> 24 + length [True] \<le> 3 * length (replicate 9 (0xFF :: 8 word, 0 :: 8 word, 0x80 :: 8 word)) \<and>
   snd (embed (replicate 9 (0xFF, 0, 0x80)) [True]) = None \<and>
   extract_bits (fst (embed (replicate 9 (0xFF, 0, 0x80)) [True])) = Inr [True]"
proof -
  have a: "length [True] < (2::nat) ^ 24" by simp
  have b: "24 + length [True] \<le> 3 * length (replicate 9 (0xFF :: 8 word, 0 :: 8 word, 0x80 :: 8 word))"
    by simp
  from extract_embed_roundtrip[OF a b] a b show ?thesis by blast
qed

text \<open>
  C4 (capacity), as claimed: embedding length \<open>L + 1\<close> into a buffer of exactly
  \<open>\<lceil>(24 + L) / 3\<rceil>\<close> pixels fails.  For \<open>L = 1\<close> the buffer has 9 pixels, that is
  27 bit-slots, and the 26 bits of header and a payload of length 2 fit.
\<close>

theorem capacity_boundary_counterexample:
  "length (replicate 9 (0 :: 8 word, 0 :: 8 word, 0 :: 8 word)) = (24 + length [True] + 2) div 3 \<and>
   snd (embed (replicate 9 (0, 0, 0)) [True]) = None \<and>
   length [True, False] = length [True] + 1 \<and>
   snd (embed (replicate 9 (0, 0, 0)) [True, False]) = None"
  by (simp add: embed_def)

text \<open>
  C4, amended.  Embedding fails with the capacity error if and only if
  \<open>24 + len(bitstring) > 3 \<times> pixelCount\<close>, and then the buffer is unchanged.
  At the boundary, embedding a bit string of length \<open>L\<close> into a buffer of
  exactly \<open>\<lceil>(24 + L) / 3\<rceil>\<close> pixels succeeds, and embedding a bit string of
  length \<open>L + 1\<close> into the same buffer fails with the capacity error exactly
  when \<open>L\<close> is a multiple of 3.
\<close>

theorem embed_capacity:
  "(snd (embed buf bits) = Some CapacityError \<longleftrightarrow> 24 + length bits > 3 * length buf) \<and>
   (snd (embed buf bits) = Some CapacityError \<longrightarrow> fst (embed buf bits) = buf) \<and>
   (length buf = (24 + length bits + 2) div 3 \<longrightarrow>
      snd (embed buf bits) = None \<and>
      (\<forall>more. length more = length bits + 1 \<longrightarrow>
         (snd (embed buf more) = Some CapacityError \<longleftrightarrow> length bits mod 3 = 0)))"
proof (intro conjI impI allI)
  show "snd (embed buf bits) = Some CapacityError \<longleftrightarrow> 24 + length bits > 3 * length buf"
    by (simp add: embed_def)
  show "fst (embed buf bits) = buf" if "snd (embed buf bits) = Some CapacityError"
    using that by (simp add: embed_def split: if_splits)
next
  assume l: "length buf = (24 + length bits + 2) div 3"
  then show "snd (embed buf bits) = None" by (simp add: embed_def)
  fix more :: "bool list" assume m: "length more = length bits + 1"
  have "24 + length more > 3 * length buf \<longleftrightarrow> length bits mod 3 = 0"
    unfolding l m by arith
  then show "snd (embed buf more) = Some CapacityError \<longleftrightarrow> length bits mod 3 = 0"
    by (simp add: embed_def)
qed

theorem embed_capacity_witness:
  "length (replicate 8 (7 :: 8 word, 7 :: 8 word, 7 :: 8 word)) = (24 + length ([] :: bool list) + 2) div 3 \<and>
   snd (embed (replicate 8 (7, 7, 7)) []) = None \<and>
   snd (embed (replicate 8 (7, 7, 7)) [True]) = Some CapacityError \<and>
   fst (embed (replicate 8 (7, 7, 7)) [True]) = replicate 8 (7, 7, 7)"
proof -
  let ?buf = "replicate 8 (7 :: 8 word, 7 :: 8 word, 7 :: 8 word)"
  have l: "length ?buf = (24 + length ([] :: bool list) + 2) div 3" by simp
  have m: "length [True] = length ([] :: bool list) + 1" by simp
  have "length ?buf = (24 + length ([] :: bool list) + 2) div 3 \<longrightarrow>
      snd (embed ?buf []) = None \<and>
      (\<forall>more. length more = length ([] :: bool list) + 1 \<longrightarrow>
         (snd (embed ?buf more) = Some CapacityError \<longleftrightarrow> length ([] :: bool list) mod 3 = 0))"
    using embed_capacity[of ?buf "[]"] by (rule conjunct2[THEN conjunct2])
  from this l have ab: "snd (embed ?buf []) = None \<and>
      (\<forall>more. length more = length ([] :: bool list) + 1 \<longrightarrow>
         (snd (embed ?buf more) = Some CapacityError \<longleftrightarrow> length ([] :: bool list) mod 3 = 0))"
    by (rule mp)
  from ab[THEN conjunct2, rule_format, OF m] have c: "snd (embed ?buf [True]) = Some CapacityError"
    by simp
  have "snd (embed ?buf [True]) = Some CapacityError \<longrightarrow> fst (embed ?buf [True]) = ?buf"
    using embed_capacity[of ?buf "[True]"] by (rule conjunct2[THEN conjunct1])
  from this c have d: "fst (embed ?buf [True]) = ?buf" by (rule mp)
  show ?thesis using l ab[THEN conjunct1] c d by (intro conjI)
qed

end
